theory Spec2Isabelle
  imports Main "HOL-Library.Product_Lexorder"
begin

section \<open>Strings, integers and errors of \<^verbatim>\<open>update_version.py\<close>\<close>

text \<open>
  A Python \<^verbatim>\<open>str\<close> is modelled as a \<^typ>\<open>string\<close>; a \<^typ>\<open>char\<close> is read as
  the code point of the same number, so the model covers the strings over the code points
  0 to 255. Python's integers are unbounded: \<^typ>\<open>int\<close>. The interpreter's optional limit
  on the number of digits of a decimal conversion is not part of the model.

  Every \<^verbatim>\<open>raise\<close> of the file raises \<^verbatim>\<open>ValueError\<close>; the raise sites differ
  in their message, and the model gives each site its own constructor, together with the
  errors that the built-ins used by the file raise.
\<close>

datatype error =
    VersionNotFound       \<comment> \<open>\<^verbatim>\<open>ValueError("Version not found in ...")\<close>\<close>
  | EmptyInput            \<comment> \<open>\<^verbatim>\<open>ValueError("No versions found")\<close>\<close>
  | MalformedVersion      \<comment> \<open>\<^verbatim>\<open>ValueError("current_version must be in the format xx.xx.xx.yy")\<close>\<close>
  | NoDirective           \<comment> \<open>\<^verbatim>\<open>ValueError("At least one of major, minor, patch, or commit must be True")\<close>\<close>
  | InvalidLiteral        \<comment> \<open>\<^verbatim>\<open>int(s)\<close>: invalid literal for int() with base 10\<close>
  | UnpackError           \<comment> \<open>not enough values to unpack (expected 3)\<close>
  | AssertionFailed       \<comment> \<open>a failed \<^verbatim>\<open>assert\<close>\<close>
  | FileNotFound          \<comment> \<open>\<^verbatim>\<open>open(path, "r")\<close> on a path that does not exist\<close>

subsection \<open>\<^verbatim>\<open>ord\<close>, \<^verbatim>\<open>chr\<close>, \<^verbatim>\<open>str.split(".")\<close>\<close>

definition ord :: "char \<Rightarrow> int" where
  "ord c = int (of_char c)"

text \<open>
  \<^verbatim>\<open>chr(ord(c) + 1)\<close>. At the code point 255 Python gives the code point 256, which is
  outside \<^typ>\<open>char\<close>; every statement below that depends on this function keeps away
  from that code point.
\<close>

definition chr_succ :: "char \<Rightarrow> char" where
  "chr_succ c = char_of (of_char c + (1::nat))"

text \<open>\<^verbatim>\<open>s.split(".")\<close>: one more part than there are dots, never the empty list.\<close>

fun split_dot :: "string \<Rightarrow> string list" where
  "split_dot [] = [[]]"
| "split_dot (c # cs) =
     (if c = CHR ''.'' then [] # split_dot cs
      else (case split_dot cs of [] \<Rightarrow> [[c]] | p # ps \<Rightarrow> (c # p) # ps))"

subsection \<open>\<^verbatim>\<open>int(s)\<close> and \<^verbatim>\<open>str(n)\<close>\<close>

text \<open>
  \<^verbatim>\<open>int(s)\<close> on a string, base 10: surrounding whitespace is stripped, one sign is
  allowed, then come decimal digits, where single underscores may stand between two digits.
  Anything else raises \<^verbatim>\<open>ValueError\<close>. The whitespace that \<^verbatim>\<open>int\<close> strips is
  tab to carriage return and the space, and of the code points from 128 to 255 the two
  that Unicode counts as spaces; the separators 28 to 31 are not stripped.
\<close>

definition py_isspace :: "char \<Rightarrow> bool" where
  "py_isspace c = ((of_char c :: nat) \<in> {9, 10, 11, 12, 13, 32, 133, 160})"

definition py_strip :: "string \<Rightarrow> string" where
  "py_strip s = rev (dropWhile py_isspace (rev (dropWhile py_isspace s)))"

definition is_digit :: "char \<Rightarrow> bool" where
  "is_digit c = (48 \<le> (of_char c :: nat) \<and> (of_char c :: nat) \<le> 57)"

definition digit_val :: "char \<Rightarrow> int" where
  "digit_val c = ord c - 48"

fun parse_digits :: "int \<Rightarrow> string \<Rightarrow> int option" where
  "parse_digits acc [] = Some acc"
| "parse_digits acc (c # cs) =
     (if is_digit c then parse_digits (acc * 10 + digit_val c) cs
      else if c = CHR ''_'' then
        (case cs of
           [] \<Rightarrow> None
         | d # ds \<Rightarrow> if is_digit d then parse_digits (acc * 10 + digit_val d) ds else None)
      else None)"

definition parse_unsigned :: "string \<Rightarrow> int option" where
  "parse_unsigned s =
     (case s of
        [] \<Rightarrow> None
      | c # cs \<Rightarrow> if is_digit c then parse_digits (digit_val c) cs else None)"

definition py_int :: "string \<Rightarrow> error + int" where
  "py_int s =
     (let t = py_strip s;
          r = (case t of
                 [] \<Rightarrow> None
               | c # cs \<Rightarrow>
                   if c = CHR ''-'' then map_option uminus (parse_unsigned cs)
                   else if c = CHR ''+'' then parse_unsigned cs
                   else parse_unsigned t)
      in case r of None \<Rightarrow> Inl InvalidLiteral | Some n \<Rightarrow> Inr n)"

text \<open>\<^verbatim>\<open>str(n)\<close>, as the f-string of \<^verbatim>\<open>update_version\<close> formats an integer.\<close>

definition digit_char :: "nat \<Rightarrow> char" where
  "digit_char d = char_of (48 + d)"

fun str_nat :: "nat \<Rightarrow> string" where
  "str_nat n = (if n < 10 then [digit_char n] else str_nat (n div 10) @ [digit_char (n mod 10)])"

declare str_nat.simps [simp del]

definition py_str :: "int \<Rightarrow> string" where
  "py_str i = (if i < 0 then CHR ''-'' # str_nat (nat (- i)) else str_nat (nat i))"

text \<open>
  \<^verbatim>\<open>major, minor, patch = map(int, parts[:3])\<close>: the unpacking draws the integers one
  by one, so the first part that is no integer raises before the number of parts is known
  to be too small.
\<close>

fun map_int :: "string list \<Rightarrow> error + int list" where
  "map_int [] = Inr []"
| "map_int (p # ps) =
     (case py_int p of
        Inl e \<Rightarrow> Inl e
      | Inr n \<Rightarrow> (case map_int ps of Inl e \<Rightarrow> Inl e | Inr ns \<Rightarrow> Inr (n # ns)))"

definition unpack3 :: "string list \<Rightarrow> error + (int \<times> int \<times> int)" where
  "unpack3 parts =
     (case map_int (take 3 parts) of
        Inl e \<Rightarrow> Inl e
      | Inr ns \<Rightarrow> (case ns of [a, b, c] \<Rightarrow> Inr (a, b, c) | _ \<Rightarrow> Inl UnpackError))"

section \<open>The version model\<close>

subsection \<open>\<^verbatim>\<open>get_latest_version\<close>\<close>

text \<open>The loop of \<^verbatim>\<open>suffix_key\<close>, from the first character to the last.\<close>

definition suffix_key :: "string \<Rightarrow> int" where
  "suffix_key suffix = fold (\<lambda>char val. val * 26 + (ord char - ord CHR ''a'' + 1)) suffix 0"

type_synonym vkey = "int \<times> int \<times> int \<times> int"

definition version_key :: "string \<Rightarrow> error + vkey" where
  "version_key version =
     (let parts = split_dot version in
      case unpack3 parts of
        Inl e \<Rightarrow> Inl e
      | Inr (major, minor, patch) \<Rightarrow>
          let suffix = (if length parts = 3 then ''a'' else parts ! 3)
          in Inr (major, minor, patch, suffix_key suffix))"

text \<open>
  \<^verbatim>\<open>max(versions, key=version_key)\<close>: the first element is the candidate, and a later
  element replaces it only when its key is strictly greater. Tuples compare
  lexicographically.
\<close>

fun max_loop :: "string \<Rightarrow> vkey \<Rightarrow> string list \<Rightarrow> error + string" where
  "max_loop max_item max_val [] = Inr max_item"
| "max_loop max_item max_val (item # items) =
     (case version_key item of
        Inl e \<Rightarrow> Inl e
      | Inr val \<Rightarrow>
          if val > max_val then max_loop item val items
          else max_loop max_item max_val items)"

definition get_latest_version :: "string list \<Rightarrow> error + string" where
  "get_latest_version versions =
     (case versions of
        [] \<Rightarrow> Inl EmptyInput
      | item # items \<Rightarrow>
          (case version_key item of
             Inl e \<Rightarrow> Inl e
           | Inr val \<Rightarrow> max_loop item val items))"

subsection \<open>\<^verbatim>\<open>increment_suffix\<close>\<close>

text \<open>
  The \<^verbatim>\<open>while i >= 0\<close> loop. The counter \<open>k\<close> is \<open>i + 1\<close>, so that \<open>k = 0\<close> is the
  exit of the loop through its \<^verbatim>\<open>else\<close> branch, which inserts an \<^verbatim>\<open>'a'\<close> in
  front; the other exit is the \<^verbatim>\<open>break\<close>.
\<close>

fun increment_loop :: "string \<Rightarrow> nat \<Rightarrow> string" where
  "increment_loop suffix_list 0 = CHR ''a'' # suffix_list"
| "increment_loop suffix_list (Suc i) =
     (if suffix_list ! i = CHR ''z''
      then increment_loop (suffix_list[i := CHR ''a'']) i
      else suffix_list[i := chr_succ (suffix_list ! i)])"

definition increment_suffix :: "string \<Rightarrow> string" where
  "increment_suffix suffix =
     (if suffix = [] then ''a'' else increment_loop suffix (length suffix))"

subsection \<open>\<^verbatim>\<open>update_version\<close>\<close>

text \<open>The \<^verbatim>\<open>if major / elif minor / elif patch\<close> statement on the three local integers.\<close>

definition numeric_step :: "bool \<Rightarrow> bool \<Rightarrow> bool \<Rightarrow> int \<times> int \<times> int \<Rightarrow> int \<times> int \<times> int" where
  "numeric_step major minor patch v =
     (case v of (major_ver, minor_ver, patch_ver) \<Rightarrow>
        if major then (major_ver + 1, 0, 0)
        else if minor then (major_ver, minor_ver + 1, 0)
        else if patch then (major_ver, minor_ver, patch_ver + 1)
        else (major_ver, minor_ver, patch_ver))"

text \<open>
  The local variables \<^verbatim>\<open>major_ver, minor_ver, patch_ver, suffix\<close> when control
  reaches \<^verbatim>\<open>if commit:\<close>, or the error raised before.
\<close>

definition before_commit ::
  "string \<Rightarrow> bool \<Rightarrow> bool \<Rightarrow> bool \<Rightarrow> error + ((int \<times> int \<times> int) \<times> string)" where
  "before_commit current_version major minor patch =
     (let parts0 = split_dot current_version;
          parts = (if length parts0 = 3 then parts0 @ [''a''] else parts0)
      in if length parts \<noteq> 4 then Inl MalformedVersion
         else (case unpack3 parts of
                 Inl e \<Rightarrow> Inl e
               | Inr v \<Rightarrow> Inr (numeric_step major minor patch v, parts ! 3)))"

definition render :: "int \<times> int \<times> int \<Rightarrow> string \<Rightarrow> string" where
  "render v suffix =
     (case v of (major_ver, minor_ver, patch_ver) \<Rightarrow>
        py_str major_ver @ ''.'' @ py_str minor_ver @ ''.'' @ py_str patch_ver @ ''.'' @ suffix)"

definition update_version :: "string \<Rightarrow> bool \<Rightarrow> bool \<Rightarrow> bool \<Rightarrow> bool \<Rightarrow> error + string" where
  "update_version current_version major minor patch commit =
     (case before_commit current_version major minor patch of
        Inl e \<Rightarrow> Inl e
      | Inr (v, suffix) \<Rightarrow>
          if commit then Inr (render v (increment_suffix suffix))
          else Inl NoDirective)"

subsection \<open>The file-mutation operations\<close>










section \<open>Notions of the specification\<close>

text \<open>
  A well-formed version string is \<^verbatim>\<open>N.N.N\<close> or \<^verbatim>\<open>N.N.N.s\<close>, each \<^verbatim>\<open>N\<close> a
  non-empty run of decimal digits and \<^verbatim>\<open>s\<close> a non-empty run of lowercase letters.
\<close>

definition numeral_str :: "string \<Rightarrow> bool" where
  "numeral_str p = (p \<noteq> [] \<and> list_all is_digit p)"

definition is_lower :: "char \<Rightarrow> bool" where
  "is_lower c = (97 \<le> (of_char c :: nat) \<and> (of_char c :: nat) \<le> 122)"

definition suffix_wf :: "string \<Rightarrow> bool" where
  "suffix_wf s = (s \<noteq> [] \<and> list_all is_lower s)"

definition version_wf :: "string \<Rightarrow> bool" where
  "version_wf v =
     (let parts = split_dot v
      in (length parts = 3 \<or> length parts = 4) \<and>
         list_all numeral_str (take 3 parts) \<and>
         (length parts = 4 \<longrightarrow> suffix_wf (parts ! 3)))"

text \<open>The number that a run of decimal digits denotes.\<close>

definition decimal :: "string \<Rightarrow> int" where
  "decimal p = fold (\<lambda>c acc. acc * 10 + digit_val c) p 0"

text \<open>
  The ordinal of a suffix as a bijective base-26 numeral: the letter at distance \<open>j\<close> from
  the end weighs \<open>26 ^ j\<close>, with \<^verbatim>\<open>'a'\<close> the digit 1 and \<^verbatim>\<open>'z'\<close> the digit 26.
\<close>

definition bij26 :: "string \<Rightarrow> int" where
  "bij26 s = (\<Sum>i < length s. (ord (s ! i) - 96) * 26 ^ (length s - 1 - i))"

text \<open>
  The tuple \<open>(major, minor, patch, suffix_ordinal)\<close> of a version string, a version without
  a suffix counting as suffix \<^verbatim>\<open>"a"\<close>, and the lexicographic order on such tuples.
\<close>

definition spec_suffix :: "string \<Rightarrow> string" where
  "spec_suffix v = (let parts = split_dot v in if length parts = 3 then ''a'' else parts ! 3)"

definition spec_numbers :: "string \<Rightarrow> int \<times> int \<times> int" where
  "spec_numbers v =
     (let parts = split_dot v in (decimal (parts ! 0), decimal (parts ! 1), decimal (parts ! 2)))"

definition spec_tuple :: "string \<Rightarrow> int \<times> int \<times> int \<times> int" where
  "spec_tuple v =
     (case spec_numbers v of (major, minor, patch) \<Rightarrow> (major, minor, patch, bij26 (spec_suffix v)))"

fun lex4_le :: "int \<times> int \<times> int \<times> int \<Rightarrow> int \<times> int \<times> int \<times> int \<Rightarrow> bool" where
  "lex4_le (a, b, c, d) (a', b', c', d') =
     (a < a' \<or> (a = a' \<and> (b < b' \<or> (b = b' \<and> (c < c' \<or> (c = c' \<and> d \<le> d'))))))"


section \<open>Properties of the built-ins\<close>

lemma digit_not_space: "is_digit c \<Longrightarrow> \<not> py_isspace c"
  by (auto simp: is_digit_def py_isspace_def)

lemma digit_not_sign:
  "is_digit c \<Longrightarrow> c \<noteq> CHR ''-'' \<and> c \<noteq> CHR ''+'' \<and> c \<noteq> CHR ''_'' \<and> c \<noteq> CHR ''.''"
  by (auto simp: is_digit_def)

lemma py_strip_digits:
  assumes "numeral_str p" shows "py_strip p = p"
proof -
  from assms obtain c cs where p: "p = c # cs" and c: "is_digit c"
    by (cases p) (auto simp: numeral_str_def)
  have 1: "dropWhile py_isspace p = p"
    using p c by (simp add: digit_not_space)
  from assms have "is_digit (last p)" "p \<noteq> []"
    by (auto simp: numeral_str_def list_all_iff)
  then have "\<not> py_isspace (hd (rev p))" "rev p \<noteq> []"
    by (auto simp: hd_rev digit_not_space)
  then have 2: "dropWhile py_isspace (rev p) = rev p"
    by (cases "rev p") auto
  show ?thesis by (simp add: py_strip_def 1 2)
qed

lemma parse_digits_all:
  "list_all is_digit cs \<Longrightarrow>
   parse_digits acc cs = Some (fold (\<lambda>c acc. acc * 10 + digit_val c) cs acc)"
  by (induction cs arbitrary: acc) auto

lemma py_int_numeral:
  assumes "numeral_str p" shows "py_int p = Inr (decimal p)"
proof -
  from assms obtain c cs where p: "p = c # cs" and c: "is_digit c" and cs: "list_all is_digit cs"
    by (cases p) (auto simp: numeral_str_def)
  have "parse_unsigned p = Some (decimal p)"
    using c by (simp add: parse_unsigned_def p parse_digits_all [OF cs] decimal_def)
  moreover have "py_strip (c # cs) = c # cs"
    using py_strip_digits [OF assms] by (simp add: p)
  ultimately show ?thesis
    using digit_not_sign [OF c] by (simp add: py_int_def p)
qed

lemma py_int_error: "py_int s = Inl e \<Longrightarrow> e = InvalidLiteral"
  by (auto simp: py_int_def Let_def split: option.splits)

lemma map_int_error: "map_int ps = Inl e \<Longrightarrow> e = InvalidLiteral"
  by (induction ps) (auto split: sum.splits dest: py_int_error)

lemma unpack3_error: "unpack3 ps = Inl e \<Longrightarrow> e = InvalidLiteral \<or> e = UnpackError"
  by (auto simp: unpack3_def split: sum.splits list.splits dest: map_int_error)

lemma map_int_numerals:
  "list_all numeral_str ps \<Longrightarrow> map_int ps = Inr (map decimal ps)"
  by (induction ps) (auto simp: py_int_numeral)

lemma unpack3_wf:
  assumes "3 \<le> length parts" "list_all numeral_str (take 3 parts)"
  shows "unpack3 parts = Inr (decimal (parts ! 0), decimal (parts ! 1), decimal (parts ! 2))"
proof -
  from assms(1) obtain a b c rest where parts: "parts = a # b # c # rest"
    by (cases parts; cases "tl parts"; cases "tl (tl parts)") auto
  show ?thesis
    using assms(2) by (simp add: unpack3_def parts py_int_numeral)
qed

section \<open>The ordinal of a suffix\<close>

lemma lex4_le_iff: "lex4_le x y \<longleftrightarrow> x \<le> y"
  by (cases x; cases y) (auto simp: less_eq_prod_def less_prod_def)

lemma suffix_key_snoc: "suffix_key (s @ [c]) = suffix_key s * 26 + (ord c - 96)"
  by (simp add: suffix_key_def ord_def)

lemma bij26_snoc: "bij26 (s @ [c]) = bij26 s * 26 + (ord c - 96)"
proof -
  have "bij26 (s @ [c]) =
      (\<Sum>i < length s. (ord ((s @ [c]) ! i) - 96) * 26 ^ (length s - i)) + (ord c - 96)"
    by (simp add: bij26_def)
  also have "(\<Sum>i < length s. (ord ((s @ [c]) ! i) - 96) * 26 ^ (length s - i))
           = (\<Sum>i < length s. ((ord (s ! i) - 96) * 26 ^ (length s - 1 - i)) * 26)"
  proof (rule sum.cong)
    fix i assume "i \<in> {..<length s}"
    then have i: "i < length s" by simp
    then have "length s - i = Suc (length s - 1 - i)" by arith
    with i show "(ord ((s @ [c]) ! i) - 96) * 26 ^ (length s - i)
               = ((ord (s ! i) - 96) * 26 ^ (length s - 1 - i)) * 26"
      by (simp add: nth_append)
  qed simp
  also have "\<dots> = bij26 s * 26"
    by (simp add: bij26_def sum_distrib_right)
  finally show ?thesis .
qed

lemma suffix_key_bij26: "suffix_key s = bij26 s"
proof (induction s rule: rev_induct)
  case Nil show ?case by (simp add: suffix_key_def bij26_def)
next
  case (snoc c s) then show ?case by (simp add: suffix_key_snoc bij26_snoc)
qed

section \<open>The key of a well-formed version\<close>

lemma version_key_wf:
  assumes "version_wf v" shows "version_key v = Inr (spec_tuple v)"
proof -
  from assms have len: "3 \<le> length (split_dot v)"
    and num: "list_all numeral_str (take 3 (split_dot v))"
    by (auto simp: version_wf_def Let_def)
  show ?thesis
    by (simp add: version_key_def spec_tuple_def spec_numbers_def spec_suffix_def Let_def
        unpack3_wf [OF len num] suffix_key_bij26)
qed

lemma version_key_error: "version_key v = Inl e \<Longrightarrow> e = InvalidLiteral \<or> e = UnpackError"
  by (auto simp: version_key_def Let_def split: sum.splits dest: unpack3_error)

lemma max_loop_error: "max_loop m k items = Inl e \<Longrightarrow> e = InvalidLiteral \<or> e = UnpackError"
proof (induction items arbitrary: m k)
  case Nil then show ?case by simp
next
  case (Cons item items)
  then show ?case
    by (auto simp del: split_paired_All split_paired_Ex split: sum.splits if_splits
        dest: version_key_error)
qed

lemma max_loop_member: "max_loop m k items = Inr r \<Longrightarrow> r = m \<or> r \<in> set items"
proof (induction items arbitrary: m k)
  case Nil then show ?case by simp
next
  case (Cons item items)
  then show ?case
    by (fastforce simp del: split_paired_All split_paired_Ex split: sum.splits if_splits)
qed

lemma get_latest_version_member: "get_latest_version versions = Inr r \<Longrightarrow> r \<in> set versions"
  by (auto simp: get_latest_version_def split: list.splits sum.splits dest: max_loop_member)

lemma get_latest_version_nonempty_error:
  "get_latest_version (item # items) \<noteq> Inl EmptyInput"
proof
  assume a: "get_latest_version (item # items) = Inl EmptyInput"
  show False
  proof (cases "version_key item")
    case (Inl e)
    with a have "e = EmptyInput" by (simp add: get_latest_version_def)
    with Inl version_key_error show False by blast
  next
    case (Inr k)
    with a have "max_loop item k items = Inl EmptyInput" by (simp add: get_latest_version_def)
    with max_loop_error show False by blast
  qed
qed

section \<open>The loop of \<^verbatim>\<open>max\<close>\<close>

lemma max_loop_spec:
  assumes "\<forall>v \<in> set items. version_wf v"
  shows "\<exists>r. max_loop m k items = Inr r \<and>
             (r = m \<and> (\<forall>v \<in> set items. spec_tuple v \<le> k) \<or>
              r \<in> set items \<and> k < spec_tuple r \<and> (\<forall>v \<in> set items. spec_tuple v \<le> spec_tuple r))"
  using assms
proof (induction items arbitrary: m k)
  case Nil
  show ?case by simp
next
  case (Cons item items)
  from Cons.prems have wf: "\<forall>v \<in> set items. version_wf v"
    and it: "version_key item = Inr (spec_tuple item)"
    by (simp_all add: version_key_wf)
  show ?case
  proof (cases "k < spec_tuple item")
    case True
    from Cons.IH [OF wf, of item "spec_tuple item"] obtain r where
      r: "max_loop item (spec_tuple item) items = Inr r"
      and d: "r = item \<and> (\<forall>v \<in> set items. spec_tuple v \<le> spec_tuple item) \<or>
              r \<in> set items \<and> spec_tuple item < spec_tuple r \<and>
              (\<forall>v \<in> set items. spec_tuple v \<le> spec_tuple r)"
      by blast
    have run: "max_loop m k (item # items) = Inr r"
      using True r by (simp add: it)
    from d have "r \<in> set (item # items) \<and> k < spec_tuple r \<and>
        (\<forall>v \<in> set (item # items). spec_tuple v \<le> spec_tuple r)"
    proof
      assume "r = item \<and> (\<forall>v \<in> set items. spec_tuple v \<le> spec_tuple item)"
      with True show ?thesis by (simp del: split_paired_All split_paired_Ex)
    next
      assume a: "r \<in> set items \<and> spec_tuple item < spec_tuple r \<and>
              (\<forall>v \<in> set items. spec_tuple v \<le> spec_tuple r)"
      then have "k < spec_tuple r" "spec_tuple item \<le> spec_tuple r"
        using True by (auto simp del: split_paired_All split_paired_Ex intro: less_trans less_imp_le)
      with a show ?thesis by (simp del: split_paired_All split_paired_Ex)
    qed
    with run show ?thesis by blast
  next
    case False
    then have le: "spec_tuple item \<le> k" by (simp add: not_less)
    from Cons.IH [OF wf, of m k] obtain r where
      r: "max_loop m k items = Inr r"
      and d: "r = m \<and> (\<forall>v \<in> set items. spec_tuple v \<le> k) \<or>
              r \<in> set items \<and> k < spec_tuple r \<and>
              (\<forall>v \<in> set items. spec_tuple v \<le> spec_tuple r)"
      by blast
    have run: "max_loop m k (item # items) = Inr r"
      using False r by (simp add: it)
    from d have "r = m \<and> (\<forall>v \<in> set (item # items). spec_tuple v \<le> k) \<or>
        r \<in> set (item # items) \<and> k < spec_tuple r \<and>
        (\<forall>v \<in> set (item # items). spec_tuple v \<le> spec_tuple r)"
    proof
      assume "r = m \<and> (\<forall>v \<in> set items. spec_tuple v \<le> k)"
      with le show ?thesis by (simp del: split_paired_All split_paired_Ex)
    next
      assume a: "r \<in> set items \<and> k < spec_tuple r \<and>
              (\<forall>v \<in> set items. spec_tuple v \<le> spec_tuple r)"
      with le have "spec_tuple item \<le> spec_tuple r"
        by (auto simp del: split_paired_All split_paired_Ex intro: less_imp_le order_trans)
      with a show ?thesis by (simp del: split_paired_All split_paired_Ex)
    qed
    with run show ?thesis by blast
  qed
qed

lemma get_latest_version_spec:
  assumes "versions \<noteq> []" "\<forall>v \<in> set versions. version_wf v"
  shows "\<exists>r. get_latest_version versions = Inr r \<and> r \<in> set versions \<and>
             (\<forall>v \<in> set versions. spec_tuple v \<le> spec_tuple r)"
proof -
  from assms(1) obtain item items where vs: "versions = item # items" by (cases versions) auto
  from assms(2) have wf: "\<forall>v \<in> set items. version_wf v"
    and it: "version_key item = Inr (spec_tuple item)"
    by (simp_all add: vs version_key_wf)
  from max_loop_spec [OF wf, of item "spec_tuple item"] obtain r where
    r: "max_loop item (spec_tuple item) items = Inr r"
    and d: "r = item \<and> (\<forall>v \<in> set items. spec_tuple v \<le> spec_tuple item) \<or>
            r \<in> set items \<and> spec_tuple item < spec_tuple r \<and>
            (\<forall>v \<in> set items. spec_tuple v \<le> spec_tuple r)"
    by blast
  have run: "get_latest_version versions = Inr r"
    by (simp add: get_latest_version_def vs it r)
  from d have "r \<in> set versions \<and> (\<forall>v \<in> set versions. spec_tuple v \<le> spec_tuple r)"
    unfolding vs
    by (auto simp del: split_paired_All split_paired_Ex intro: less_imp_le)
  with run show ?thesis by blast
qed

section \<open>The steps of \<^verbatim>\<open>update_version\<close>\<close>

lemma before_commit_malformed:
  "before_commit v major minor patch = Inl MalformedVersion \<longleftrightarrow>
   length (split_dot v) \<noteq> 3 \<and> length (split_dot v) \<noteq> 4"
  by (auto simp: before_commit_def Let_def split: sum.splits dest: unpack3_error)

lemma update_version_no_commit: "update_version v major minor patch False \<noteq> Inr r"
  by (auto simp: update_version_def split: sum.splits)

lemma before_commit_wf:
  assumes "version_wf v"
  shows "before_commit v major minor patch =
         Inr (numeric_step major minor patch (spec_numbers v), spec_suffix v)"
proof -
  from assms have len: "length (split_dot v) = 3 \<or> length (split_dot v) = 4"
    and num: "list_all numeral_str (take 3 (split_dot v))"
    by (auto simp: version_wf_def Let_def)
  from len show ?thesis
  proof
    assume l: "length (split_dot v) = 3"
    then have "take 3 (split_dot v @ [''a'']) = take 3 (split_dot v)" by simp
    with num l have "unpack3 (split_dot v @ [''a'']) =
        Inr (decimal ((split_dot v @ [''a'']) ! 0), decimal ((split_dot v @ [''a'']) ! 1),
             decimal ((split_dot v @ [''a'']) ! 2))"
      by (intro unpack3_wf) simp_all
    with l show ?thesis
      by (simp add: before_commit_def Let_def spec_numbers_def spec_suffix_def nth_append)
  next
    assume l: "length (split_dot v) = 4"
    with num have "unpack3 (split_dot v) =
        Inr (decimal (split_dot v ! 0), decimal (split_dot v ! 1), decimal (split_dot v ! 2))"
      by (intro unpack3_wf) simp_all
    with l show ?thesis
      by (simp add: before_commit_def Let_def spec_numbers_def spec_suffix_def)
  qed
qed

section \<open>The increment of a suffix\<close>

lemma suffix_key_append:
  "suffix_key (xs @ ys) = suffix_key xs * 26 ^ length ys + suffix_key ys"
proof (induction ys rule: rev_induct)
  case Nil show ?case by (simp add: suffix_key_def)
next
  case (snoc y ys)
  have "suffix_key (xs @ ys @ [y]) = suffix_key ((xs @ ys) @ [y])" by simp
  also have "\<dots> = suffix_key (xs @ ys) * 26 + (ord y - 96)" by (rule suffix_key_snoc)
  finally show ?case by (simp add: snoc.IH suffix_key_snoc algebra_simps)
qed

lemma suffix_key_all_a_all_z:
  "suffix_key (replicate n CHR ''a'') + 26 ^ n = suffix_key (replicate n CHR ''z'') + 1"
proof (induction n)
  case 0 show ?case by (simp add: suffix_key_def)
next
  case (Suc n)
  have a: "suffix_key (CHR ''a'' # replicate n CHR ''a'') = suffix_key (replicate n CHR ''a'') * 26 + 1"
    unfolding replicate_append_same [symmetric] suffix_key_snoc by (simp add: ord_def)
  have z: "suffix_key (CHR ''z'' # replicate n CHR ''z'') = suffix_key (replicate n CHR ''z'') * 26 + 26"
    unfolding replicate_append_same [symmetric] suffix_key_snoc by (simp add: ord_def)
  from Suc show ?case by (simp add: a z)
qed

lemma ord_chr_succ: "(of_char c :: nat) < 255 \<Longrightarrow> ord (chr_succ c) = ord c + 1"
  by (simp add: ord_def chr_succ_def)

lemma increment_loop_key:
  "list_all (\<lambda>c. (of_char c :: nat) < 255) xs \<Longrightarrow>
   suffix_key (increment_loop (xs @ replicate n CHR ''a'') (length xs))
     = suffix_key (xs @ replicate n CHR ''z'') + 1"
proof (induction xs arbitrary: n rule: rev_induct)
  case Nil
  have "suffix_key (CHR ''a'' # replicate n CHR ''a'') = suffix_key ([CHR ''a''] @ replicate n CHR ''a'')"
    by simp
  also have "\<dots> = 26 ^ n + suffix_key (replicate n CHR ''a'')"
    unfolding suffix_key_append by (simp add: suffix_key_def ord_def)
  finally show ?case using suffix_key_all_a_all_z [of n] by simp
next
  case (snoc c xs)
  from snoc.prems have xs: "list_all (\<lambda>c. (of_char c :: nat) < 255) xs" and c: "(of_char c :: nat) < 255"
    by simp_all
  show ?case
  proof (cases "c = CHR ''z''")
    case True
    have "increment_loop ((xs @ [c]) @ replicate n CHR ''a'') (length (xs @ [c]))
        = increment_loop (xs @ replicate (Suc n) CHR ''a'') (length xs)"
      using True by (simp add: nth_append list_update_append)
    also have "suffix_key \<dots> = suffix_key (xs @ replicate (Suc n) CHR ''z'') + 1"
      by (rule snoc.IH [OF xs])
    finally show ?thesis using True by simp
  next
    case False
    have step: "increment_loop ((xs @ [c]) @ replicate n CHR ''a'') (length (xs @ [c]))
        = (xs @ [chr_succ c]) @ replicate n CHR ''a''"
      using False by (simp add: nth_append list_update_append)
    have "suffix_key ((xs @ [chr_succ c]) @ replicate n CHR ''a'')
        = (suffix_key xs * 26 + (ord c + 1 - 96)) * 26 ^ n + suffix_key (replicate n CHR ''a'')"
      unfolding suffix_key_append [of "xs @ [chr_succ c]"] suffix_key_snoc
      by (simp add: ord_chr_succ [OF c])
    moreover have "suffix_key ((xs @ [c]) @ replicate n CHR ''z'')
        = (suffix_key xs * 26 + (ord c - 96)) * 26 ^ n + suffix_key (replicate n CHR ''z'')"
      unfolding suffix_key_append [of "xs @ [c]"] suffix_key_snoc by simp
    ultimately show ?thesis
      using suffix_key_all_a_all_z [of n] unfolding step by (simp add: algebra_simps)
  qed
qed

lemma increment_suffix_key:
  assumes "list_all (\<lambda>c. (of_char c :: nat) < 255) s"
  shows "suffix_key (increment_suffix s) = suffix_key s + 1"
proof (cases "s = []")
  case True then show ?thesis by (simp add: increment_suffix_def suffix_key_def ord_def)
next
  case False
  with increment_loop_key [OF assms, of 0] show ?thesis
    by (simp add: increment_suffix_def)
qed

lemma lower_below_255: "list_all is_lower s \<Longrightarrow> list_all (\<lambda>c. (of_char c :: nat) < 255) s"
  by (induction s) (auto simp: is_lower_def)

section \<open>Replacement of a literal\<close>





section \<open>Rendering and reading back\<close>

lemma is_digit_digit_char: "d < 10 \<Longrightarrow> is_digit (digit_char d)"
  by (simp add: is_digit_def digit_char_def)

lemma digit_val_digit_char: "d < 10 \<Longrightarrow> digit_val (digit_char d) = int d"
  by (simp add: digit_val_def ord_def digit_char_def)

lemma decimal_snoc: "decimal (p @ [c]) = decimal p * 10 + digit_val c"
  by (simp add: decimal_def)

lemma str_nat_digits: "str_nat n \<noteq> [] \<and> list_all is_digit (str_nat n)"
proof (induction n rule: str_nat.induct)
  case (1 n)
  show ?case
  proof (cases "n < 10")
    case True
    then show ?thesis by (subst (1 2) str_nat.simps) (simp add: is_digit_digit_char)
  next
    case False
    then have "n mod 10 < 10" by simp
    with False 1 show ?thesis
      by (subst (1 2) str_nat.simps) (simp add: is_digit_digit_char)
  qed
qed

lemma decimal_str_nat: "decimal (str_nat n) = int n"
proof (induction n rule: str_nat.induct)
  case (1 n)
  show ?case
  proof (cases "n < 10")
    case True
    then show ?thesis
      by (subst str_nat.simps) (simp add: decimal_def digit_val_digit_char)
  next
    case False
    then have "decimal (str_nat n) = decimal (str_nat (n div 10)) * 10 + int (n mod 10)"
      by (subst str_nat.simps) (simp add: decimal_snoc digit_val_digit_char)
    with False 1 show ?thesis by (simp add: zmod_int zdiv_int)
  qed
qed

lemma py_str_numeral: "0 \<le> i \<Longrightarrow> numeral_str (py_str i) \<and> decimal (py_str i) = i"
  by (simp add: py_str_def numeral_str_def str_nat_digits decimal_str_nat)

lemma split_dot_no_dot: "CHR ''.'' \<notin> set s \<Longrightarrow> split_dot s = [s]"
  by (induction s) auto

lemma split_dot_append:
  "CHR ''.'' \<notin> set a \<Longrightarrow> split_dot (a @ CHR ''.'' # rest) = a # split_dot rest"
  by (induction a) auto

lemma digits_no_dot: "list_all is_digit s \<Longrightarrow> CHR ''.'' \<notin> set s"
  by (auto simp: list_all_iff is_digit_def)

lemma lower_no_dot: "list_all is_lower s \<Longrightarrow> CHR ''.'' \<notin> set s"
  by (auto simp: list_all_iff is_lower_def)

lemma is_lower_chr_succ: "is_lower c \<Longrightarrow> c \<noteq> CHR ''z'' \<Longrightarrow> is_lower (chr_succ c)"
proof -
  assume l: "is_lower c" and z: "c \<noteq> CHR ''z''"
  have "(of_char c :: nat) \<noteq> 122"
  proof
    assume "(of_char c :: nat) = 122"
    then have "(of_char c :: nat) = of_char CHR ''z''" by simp
    then have "c = CHR ''z''" by (simp only: of_char_eq_iff)
    with z show False by simp
  qed
  with l show ?thesis by (simp add: is_lower_def chr_succ_def)
qed

lemma list_all_update: "list_all P xs \<Longrightarrow> P x \<Longrightarrow> list_all P (xs[i := x])"
  using set_update_subset_insert [of xs i x] by (auto simp: list_all_iff)

lemma increment_loop_lower:
  "list_all is_lower s \<Longrightarrow> k \<le> length s \<Longrightarrow> list_all is_lower (increment_loop s k)"
proof (induction k arbitrary: s)
  case 0
  then show ?case by (simp add: is_lower_def)
next
  case (Suc k)
  from Suc.prems have k: "k < length s" by simp
  with Suc.prems have lk: "is_lower (s ! k)" by (simp add: list_all_length)
  show ?case
  proof (cases "s ! k = CHR ''z''")
    case True
    have "list_all is_lower (s[k := CHR ''a''])"
      using Suc.prems(1) by (rule list_all_update) (simp add: is_lower_def)
    with Suc.IH [of "s[k := CHR ''a'']"] k True show ?thesis by simp
  next
    case False
    with lk have "is_lower (chr_succ (s ! k))" by (simp add: is_lower_chr_succ)
    with Suc.prems(1) False show ?thesis by (simp add: list_all_update)
  qed
qed

lemma increment_loop_nonempty: "s \<noteq> [] \<Longrightarrow> increment_loop s k \<noteq> []"
  by (induction k arbitrary: s) auto

lemma increment_suffix_wf: "list_all is_lower s \<Longrightarrow> suffix_wf (increment_suffix s)"
  by (simp add: suffix_wf_def increment_suffix_def increment_loop_lower increment_loop_nonempty
      is_lower_def)

lemma split_dot_render:
  assumes "0 \<le> a" "0 \<le> b" "0 \<le> c" "list_all is_lower sfx"
  shows "split_dot (render (a, b, c) sfx) = [py_str a, py_str b, py_str c, sfx]"
proof -
  have "list_all is_digit (py_str a)" "list_all is_digit (py_str b)" "list_all is_digit (py_str c)"
    using assms(1-3) py_str_numeral by (simp_all add: numeral_str_def)
  then have d: "CHR ''.'' \<notin> set (py_str a)" "CHR ''.'' \<notin> set (py_str b)"
    "CHR ''.'' \<notin> set (py_str c)"
    by (simp_all add: digits_no_dot)
  have "render (a, b, c) sfx = py_str a @ CHR ''.'' # (py_str b @ CHR ''.'' # (py_str c @ CHR ''.'' # sfx))"
    by (simp add: render_def)
  then show ?thesis
    by (simp only: split_dot_append [OF d(1)] split_dot_append [OF d(2)] split_dot_append [OF d(3)]
        split_dot_no_dot [OF lower_no_dot [OF assms(4)]])
qed

lemma render_wf:
  assumes "0 \<le> a" "0 \<le> b" "0 \<le> c" "suffix_wf sfx"
  shows "version_wf (render (a, b, c) sfx) \<and> spec_numbers (render (a, b, c) sfx) = (a, b, c) \<and>
         spec_suffix (render (a, b, c) sfx) = sfx"
proof -
  from assms(4) have l: "list_all is_lower sfx" by (simp add: suffix_wf_def)
  note s = split_dot_render [OF assms(1-3) l]
  show ?thesis
    using assms py_str_numeral [of a] py_str_numeral [of b] py_str_numeral [of c]
    by (simp add: version_wf_def spec_numbers_def spec_suffix_def s)
qed

lemma fold_dec_nonneg:
  "list_all is_digit cs \<Longrightarrow> 0 \<le> acc \<Longrightarrow> 0 \<le> fold (\<lambda>c acc. acc * 10 + digit_val c) cs acc"
proof (induction cs arbitrary: acc)
  case Nil then show ?case by simp
next
  case (Cons c cs)
  from Cons.prems have "0 \<le> digit_val c"
    by (simp add: is_digit_def digit_val_def ord_def)
  with Cons show ?case by simp
qed

lemma decimal_nonneg: "numeral_str p \<Longrightarrow> 0 \<le> decimal p"
  by (simp add: decimal_def numeral_str_def fold_dec_nonneg)

lemma spec_numbers_nonneg:
  assumes "version_wf v" "spec_numbers v = (a, b, c)"
  shows "0 \<le> a \<and> 0 \<le> b \<and> 0 \<le> c"
proof -
  from assms(1) have len: "3 \<le> length (split_dot v)"
    and num: "list_all numeral_str (take 3 (split_dot v))"
    by (auto simp: version_wf_def Let_def)
  from len obtain x y z rest where parts: "split_dot v = x # y # z # rest"
    by (cases "split_dot v"; cases "tl (split_dot v)"; cases "tl (tl (split_dot v))") auto
  with num have "numeral_str x" "numeral_str y" "numeral_str z" by simp_all
  then have "0 \<le> decimal x" "0 \<le> decimal y" "0 \<le> decimal z"
    by (simp_all add: decimal_nonneg)
  with assms(2) show ?thesis by (simp add: spec_numbers_def parts)
qed

lemma spec_suffix_wf: "version_wf v \<Longrightarrow> suffix_wf (spec_suffix v)"
  by (auto simp: version_wf_def spec_suffix_def Let_def suffix_wf_def is_lower_def)

section \<open>Text mode\<close>







section \<open>The claims\<close>

text \<open>
  C1: for a version with an explicit suffix, \<^verbatim>\<open>update_version\<close> with a numeric directive
  set and \<^verbatim>\<open>commit\<close> not set is said to succeed and to carry the suffix forward, so that
  \<^verbatim>\<open>update_version("1.2.3.c", major=True, commit=False)\<close> would return
  \<^verbatim>\<open>"2.0.0.c"\<close>. The \<^verbatim>\<open>else\<close> of \<^verbatim>\<open>if commit:\<close> raises instead: on this input
  the function ends with the error whose message asks for at least one of the four flags.
\<close>

theorem update_version_suffix_commit_unset:
  "update_version ''1.2.3.c'' True False False False = Inl NoDirective"
  by code_simp

text \<open>
  C2: \<^verbatim>\<open>update_version\<close> is said to raise the no-directive error exactly when all four
  flags are false. With \<^verbatim>\<open>major\<close> set and \<^verbatim>\<open>commit\<close> not set it raises that error all
  the same, and with \<^verbatim>\<open>commit\<close> not set it never returns a version, whatever the other
  flags are.
\<close>

theorem update_version_raises_without_commit:
  "update_version ''1.0.0'' True False False False = Inl NoDirective \<and>
   (\<forall>v major minor patch r. update_version v major minor patch False \<noteq> Inr r)"
proof
  show "update_version ''1.0.0'' True False False False = Inl NoDirective"
    by code_simp
  show "\<forall>v major minor patch r. update_version v major minor patch False \<noteq> Inr r"
    by (simp add: update_version_no_commit)
qed

text \<open>
  C3: \<^verbatim>\<open>update_version\<close> raises the malformed-version error if and only if the current
  version does not split at its dots into exactly 3 or 4 parts; this holds for every string
  and every choice of the four flags.
\<close>

theorem update_version_malformed_iff:
  "update_version v major minor patch commit = Inl MalformedVersion \<longleftrightarrow>
   length (split_dot v) \<noteq> 3 \<and> length (split_dot v) \<noteq> 4"
  unfolding before_commit_malformed [symmetric, of v major minor patch]
  by (auto simp: update_version_def split: sum.splits)

text \<open>
  C4: on a non-empty list of well-formed version strings \<^verbatim>\<open>get_latest_version\<close> returns
  an element of the list whose tuple (major, minor, patch, suffix ordinal) is greatest in the
  lexicographic order, the numbers compared as integers and the suffix by its bijective
  base-26 ordinal, a version without a suffix counting as suffix \<^verbatim>\<open>"a"\<close> of ordinal 1.
  The two documented examples give \<^verbatim>\<open>"1.2.4"\<close> and \<^verbatim>\<open>"1.0.0.aa"\<close>.
\<close>

theorem get_latest_version_maximum:
  "(versions \<noteq> [] \<and> (\<forall>v \<in> set versions. version_wf v) \<longrightarrow>
      (\<exists>r. get_latest_version versions = Inr r \<and> r \<in> set versions \<and>
           (\<forall>v \<in> set versions. lex4_le (spec_tuple v) (spec_tuple r)))) \<and>
   bij26 ''a'' = 1 \<and>
   get_latest_version [''1.2.3'', ''1.2.3.b'', ''1.2.4''] = Inr ''1.2.4'' \<and>
   get_latest_version [''1.0.0.a'', ''1.0.0.z'', ''1.0.0.aa''] = Inr ''1.0.0.aa''"
proof (intro conjI impI)
  assume "versions \<noteq> [] \<and> (\<forall>v \<in> set versions. version_wf v)"
  then show "\<exists>r. get_latest_version versions = Inr r \<and> r \<in> set versions \<and>
           (\<forall>v \<in> set versions. lex4_le (spec_tuple v) (spec_tuple r))"
    using get_latest_version_spec [of versions] unfolding lex4_le_iff by blast
next
  show "bij26 ''a'' = 1" by code_simp
next
  show "get_latest_version [''1.2.3'', ''1.2.3.b'', ''1.2.4''] = Inr ''1.2.4''" by code_simp
next
  show "get_latest_version [''1.0.0.a'', ''1.0.0.z'', ''1.0.0.aa''] = Inr ''1.0.0.aa''" by code_simp
qed

theorem get_latest_version_maximum_witness:
  "\<exists>r. get_latest_version [''1.2.3'', ''1.2.10.b'', ''1.2.4''] = Inr r \<and>
       r \<in> set [''1.2.3'', ''1.2.10.b'', ''1.2.4''] \<and>
       (\<forall>v \<in> set [''1.2.3'', ''1.2.10.b'', ''1.2.4'']. lex4_le (spec_tuple v) (spec_tuple r))"
proof -
  have "[''1.2.3'', ''1.2.10.b'', ''1.2.4''] \<noteq> [] \<and>
        (\<forall>v \<in> set [''1.2.3'', ''1.2.10.b'', ''1.2.4'']. version_wf v)"
    by code_simp
  with get_latest_version_maximum [of "[''1.2.3'', ''1.2.10.b'', ''1.2.4'']"]
  show ?thesis by blast
qed

text \<open>
  C5: \<^verbatim>\<open>increment_suffix\<close> is the successor for the ordinal of a suffix: on every suffix
  of lowercase letters, the empty one included, the ordinal of the result is the ordinal of
  the argument plus one, for the key computed by \<^verbatim>\<open>suffix_key\<close> and for the bijective
  base-26 value alike, and the result is again a non-empty suffix of lowercase letters.
  The four documented examples hold.
\<close>

theorem increment_suffix_successor:
  "(list_all is_lower s \<longrightarrow>
      suffix_key (increment_suffix s) = suffix_key s + 1 \<and>
      bij26 (increment_suffix s) = bij26 s + 1 \<and>
      suffix_wf (increment_suffix s)) \<and>
   increment_suffix ''z'' = ''aa'' \<and>
   increment_suffix ''zz'' = ''aaa'' \<and>
   increment_suffix [] = ''a'' \<and>
   increment_suffix ''az'' = ''ba''"
proof (intro conjI impI)
  assume "list_all is_lower s"
  then show "suffix_key (increment_suffix s) = suffix_key s + 1"
    by (simp add: increment_suffix_key lower_below_255)
  then show "bij26 (increment_suffix s) = bij26 s + 1"
    by (simp add: suffix_key_bij26)
next
  assume "list_all is_lower s"
  then show "suffix_wf (increment_suffix s)" by (rule increment_suffix_wf)
next
  show "increment_suffix ''z'' = ''aa''" by code_simp
next
  show "increment_suffix ''zz'' = ''aaa''" by code_simp
next
  show "increment_suffix [] = ''a''" by code_simp
next
  show "increment_suffix ''az'' = ''ba''" by code_simp
qed

theorem increment_suffix_successor_witness:
  "list_all is_lower ''bzz'' \<and> increment_suffix ''bzz'' = ''caa'' \<and>
   suffix_key (increment_suffix ''bzz'') = suffix_key ''bzz'' + 1 \<and>
   bij26 (increment_suffix ''bzz'') = bij26 ''bzz'' + 1"
proof -
  have l: "list_all is_lower ''bzz''" by code_simp
  have e: "increment_suffix ''bzz'' = ''caa''" by code_simp
  from l e increment_suffix_successor [of "''bzz''"] show ?thesis by blast
qed

text \<open>
  C7: \<^verbatim>\<open>update_version("1.2.3", major=True, commit=True)\<close> returns \<^verbatim>\<open>"2.0.0.b"\<close>:
  the missing suffix defaults to \<^verbatim>\<open>"a"\<close>, the major bump sets minor and patch to 0, and
  commit increments the suffix to \<^verbatim>\<open>"b"\<close>.
\<close>

theorem update_version_major_commit_example:
  "update_version ''1.2.3'' True False False True = Inr ''2.0.0.b''"
  by code_simp

text \<open>
  C8: \<^verbatim>\<open>get_latest_version\<close> fails with the empty-input error on the empty list, and on
  no other list.
\<close>

theorem get_latest_version_empty_iff:
  "get_latest_version [] = Inl EmptyInput \<and>
   (get_latest_version versions = Inl EmptyInput \<longleftrightarrow> versions = [])"
proof (cases versions)
  case Nil
  then show ?thesis by (simp add: get_latest_version_def)
next
  case (Cons item items)
  with get_latest_version_nonempty_error [of item items] show ?thesis
    by (simp add: get_latest_version_def)
qed

text \<open>
  C10: whatever \<^verbatim>\<open>get_latest_version\<close> returns is an element of its input, and on a
  non-empty list of well-formed versions it does return. A version of three parts comes back
  in its three-part form, although it is compared as if it had the suffix \<^verbatim>\<open>"a"\<close>.
\<close>

theorem get_latest_version_returns_member:
  "(get_latest_version versions = Inr r \<longrightarrow> r \<in> set versions) \<and>
   (versions \<noteq> [] \<and> (\<forall>v \<in> set versions. version_wf v) \<longrightarrow>
      (\<exists>r'. get_latest_version versions = Inr r' \<and> r' \<in> set versions)) \<and>
   get_latest_version [''1.0.0'', ''1.0.0.a''] = Inr ''1.0.0''"
proof (intro conjI impI)
  assume "get_latest_version versions = Inr r"
  then show "r \<in> set versions" by (rule get_latest_version_member)
next
  assume "versions \<noteq> [] \<and> (\<forall>v \<in> set versions. version_wf v)"
  then show "\<exists>r'. get_latest_version versions = Inr r' \<and> r' \<in> set versions"
    using get_latest_version_spec [of versions] by blast
next
  show "get_latest_version [''1.0.0'', ''1.0.0.a''] = Inr ''1.0.0''" by code_simp
qed

theorem get_latest_version_returns_member_witness:
  "get_latest_version [''0.9.0.c'', ''0.10.0''] = Inr ''0.10.0'' \<and>
   ''0.10.0'' \<in> set [''0.9.0.c'', ''0.10.0''] \<and>
   (\<exists>r'. get_latest_version [''0.9.0.c'', ''0.10.0''] = Inr r' \<and>
         r' \<in> set [''0.9.0.c'', ''0.10.0''])"
proof -
  have run: "get_latest_version [''0.9.0.c'', ''0.10.0''] = Inr ''0.10.0''" by code_simp
  have wf: "[''0.9.0.c'', ''0.10.0''] \<noteq> [] \<and> (\<forall>v \<in> set [''0.9.0.c'', ''0.10.0'']. version_wf v)"
    by code_simp
  from run wf get_latest_version_returns_member [of "[''0.9.0.c'', ''0.10.0'']" "''0.10.0''"]
  show ?thesis by blast
qed

text \<open>
  C6: the numeric directives of \<^verbatim>\<open>update_version\<close> apply by precedence. For every
  well-formed version with the numbers \<open>(M, m, p)\<close>, the local integers that reach
  \<^verbatim>\<open>if commit:\<close> are \<open>(M + 1, 0, 0)\<close> when \<^verbatim>\<open>major\<close> is set, whatever \<^verbatim>\<open>minor\<close> and
  \<^verbatim>\<open>patch\<close> are; otherwise \<open>(M, m + 1, 0)\<close> when \<^verbatim>\<open>minor\<close> is set, whatever
  \<^verbatim>\<open>patch\<close> is; otherwise \<open>(M, m, p + 1)\<close> when \<^verbatim>\<open>patch\<close> is set; otherwise they are
  unchanged. When the function returns, which it does with \<^verbatim>\<open>commit\<close> set, the version it
  returns is well-formed and carries exactly these numbers.
\<close>

theorem numeric_directives_precedence:
  "version_wf v \<and> spec_numbers v = (M, m, p) \<longrightarrow>
     before_commit v major minor patch =
       Inr ((if major then (M + 1, 0, 0)
             else if minor then (M, m + 1, 0)
             else if patch then (M, m, p + 1)
             else (M, m, p)), spec_suffix v) \<and>
     (\<exists>r. update_version v major minor patch True = Inr r \<and> version_wf r \<and>
          spec_numbers r =
            (if major then (M + 1, 0, 0)
             else if minor then (M, m + 1, 0)
             else if patch then (M, m, p + 1)
             else (M, m, p)) \<and>
          spec_suffix r = increment_suffix (spec_suffix v))"
proof
  assume a: "version_wf v \<and> spec_numbers v = (M, m, p)"
  then have wf: "version_wf v" and nums: "spec_numbers v = (M, m, p)" by simp_all
  define w where "w = (if major then (M + 1, 0, 0)
             else if minor then (M, m + 1, 0)
             else if patch then (M, m, p + 1)
             else (M, m, p))"
  have step: "numeric_step major minor patch (M, m, p) = w"
    by (simp add: numeric_step_def w_def)
  have bc: "before_commit v major minor patch = Inr (w, spec_suffix v)"
    using before_commit_wf [OF wf, of major minor patch] by (simp add: nums step)
  from spec_numbers_nonneg [OF wf nums] have nn: "0 \<le> M" "0 \<le> m" "0 \<le> p" by simp_all
  obtain a' b' c' where w: "w = (a', b', c')" by (cases w)
  with nn have nn': "0 \<le> a'" "0 \<le> b'" "0 \<le> c'"
    by (auto simp: w_def split: if_splits)
  have sfx: "suffix_wf (increment_suffix (spec_suffix v))"
    using spec_suffix_wf [OF wf] increment_suffix_wf [of "spec_suffix v"]
    by (simp add: suffix_wf_def)
  have run: "update_version v major minor patch True =
      Inr (render w (increment_suffix (spec_suffix v)))"
    by (simp add: update_version_def bc)
  from render_wf [OF nn' sfx]
  have "version_wf (render w (increment_suffix (spec_suffix v))) \<and>
        spec_numbers (render w (increment_suffix (spec_suffix v))) = w \<and>
        spec_suffix (render w (increment_suffix (spec_suffix v))) = increment_suffix (spec_suffix v)"
    by (simp add: w)
  with run have "\<exists>r. update_version v major minor patch True = Inr r \<and> version_wf r \<and>
          spec_numbers r = w \<and> spec_suffix r = increment_suffix (spec_suffix v)"
    by blast
  with bc show "before_commit v major minor patch =
       Inr ((if major then (M + 1, 0, 0)
             else if minor then (M, m + 1, 0)
             else if patch then (M, m, p + 1)
             else (M, m, p)), spec_suffix v) \<and>
     (\<exists>r. update_version v major minor patch True = Inr r \<and> version_wf r \<and>
          spec_numbers r =
            (if major then (M + 1, 0, 0)
             else if minor then (M, m + 1, 0)
             else if patch then (M, m, p + 1)
             else (M, m, p)) \<and>
          spec_suffix r = increment_suffix (spec_suffix v))"
    unfolding w_def by blast
qed

theorem numeric_directives_precedence_witness:
  "version_wf ''1.2.3'' \<and> spec_numbers ''1.2.3'' = (1, 2, 3) \<and>
   before_commit ''1.2.3'' False True True = Inr ((1, 3, 0), ''a'') \<and>
   (\<exists>r. update_version ''1.2.3'' False True True True = Inr r \<and> version_wf r \<and>
        spec_numbers r = (1, 3, 0) \<and> spec_suffix r = ''b'')"
proof -
  have h: "version_wf ''1.2.3'' \<and> spec_numbers ''1.2.3'' = (1, 2, 3)" by code_simp
  have s: "spec_suffix ''1.2.3'' = ''a''" by code_simp
  have i: "increment_suffix ''a'' = ''b''" by code_simp
  from h numeric_directives_precedence [of "''1.2.3''" 1 2 3 False True True]
  show ?thesis by (simp add: s i)
qed




end
